theory Spec2Isabelle
  imports Main "HOL-Library.Word" "HOL-Library.Sublist"
begin

section \<open>The encode interface (frontend\_stegnography/app/encode/page.tsx)\<close>

text \<open>
  The component \<^verbatim>\<open>EncodeLab\<close> keeps its inputs in React state cells. The cells that
  the capacity effect and \<^verbatim>\<open>handleEncode\<close> read are collected in one record. A
  \<^verbatim>\<open>File\<close> object of the browser is left abstract (the type variable \<open>'f\<close>).
  The state cell \<^verbatim>\<open>imageStats\<close> is the field \<open>stats\<close>, and the field \<^verbatim>\<open>size\<close>
  of its value is \<open>sizeBytes\<close>, since the source's names are taken in HOL.

  JavaScript numbers are IEEE doubles. Every quantity below is a non-negative integer
  built from the image's pixel dimensions, at most three channels and a bit depth of at
  most eight; such products stay far below \<open>2^53\<close>, where double arithmetic on integers
  is exact, and \<^verbatim>\<open>Math.floor(x / 8)\<close> is then the integer quotient. The model
  therefore computes in \<open>int\<close>.
\<close>

record imageStats =
  width :: nat
  height :: nat
  format :: string
  sizeBytes :: nat

datatype tab = TextTab | FileTab

record 'f encode_state =
  coverImage :: "'f option"
  stats :: "imageStats option"
  activeTab :: tab
  secretText :: string
  secretFile :: "'f option"
  bitsPerChannel :: nat
  channels :: "string list"
  useEncryption :: bool
  password :: string
  compress :: bool
  maxCapacity :: int

subsection \<open>Capacity effect (lines 40 to 49)\<close>

text \<open>
  \<^verbatim>\<open>
  const pixels = imageStats.width * imageStats.height
  const channelCount = channels.length
  const totalBits = pixels * channelCount * bitsPerChannel[0]
  const capacityBytes = Math.floor(totalBits / 8)
  const usableCapacity = Math.max(0, capacityBytes - 100) // Overhead buffer
  \<close>
  \<open>bitsPerChannel\<close> is the element 0 of the slider's one-element array.
\<close>

definition totalBits :: "nat \<Rightarrow> nat \<Rightarrow> string list \<Rightarrow> nat \<Rightarrow> int" where
  "totalBits w h chs bits =
     (let pixels = int w * int h;
          channelCount = int (length chs)
      in pixels * channelCount * int bits)"

definition capacityBytes :: "nat \<Rightarrow> nat \<Rightarrow> string list \<Rightarrow> nat \<Rightarrow> int" where
  "capacityBytes w h chs bits = totalBits w h chs bits div 8"

definition usableCapacity :: "nat \<Rightarrow> nat \<Rightarrow> string list \<Rightarrow> nat \<Rightarrow> int" where
  "usableCapacity w h chs bits = max 0 (capacityBytes w h chs bits - 100)"

text \<open>The effect itself: without image statistics the state cell keeps its value.\<close>

definition capacity_effect :: "'f encode_state \<Rightarrow> 'f encode_state" where
  "capacity_effect s =
     (case stats s of
        None \<Rightarrow> s
      | Some st \<Rightarrow>
          s\<lparr>maxCapacity := usableCapacity (width st) (height st) (channels s) (bitsPerChannel s)\<rparr>)"

text \<open>
  The channel buttons (line 252): a click removes the channel when it is selected and
  appends it otherwise.
\<close>

definition toggleChannel :: "string \<Rightarrow> string list \<Rightarrow> string list" where
  "toggleChannel channel prev =
     (if channel \<in> set prev then filter (\<lambda>c. c \<noteq> channel) prev else prev @ [channel])"

text \<open>
  The capacity formula of the specification, with its two constants as parameters:
  \<open>floor((raw_bits - header_bits_reserved) / 8) - safety_margin\<close>.
\<close>

definition spec_usable_bytes :: "int \<Rightarrow> int \<Rightarrow> nat \<Rightarrow> nat \<Rightarrow> string list \<Rightarrow> nat \<Rightarrow> int" where
  "spec_usable_bytes header_bits_reserved safety_margin w h chs bits =
     (totalBits w h chs bits - header_bits_reserved) div 8 - safety_margin"

subsection \<open>Request construction (lines 86 to 130)\<close>

text \<open>
  \<^verbatim>\<open>handleEncode\<close> returns at once without a cover image. Otherwise it fills a
  \<^verbatim>\<open>FormData\<close> in the order below and posts it. A value of the form is a file or
  a string; appending \<^verbatim>\<open>null\<close> (the non-null assertion on \<^verbatim>\<open>secretFile\<close>
  checks nothing at run time) stores the string \<^verbatim>\<open>"null"\<close>.
\<close>

datatype 'f form_value = FileValue 'f | TextValue string

record 'f request =
  url :: string
  body :: "(string \<times> 'f form_value) list"

definition digit_char :: "nat \<Rightarrow> char" where
  "digit_char d = char_of (48 + d)"

function toString :: "nat \<Rightarrow> string" where
  "toString n = (if n < 10 then [digit_char n] else toString (n div 10) @ [digit_char (n mod 10)])"
  by pat_completeness auto
termination
  by (relation "measure id") auto

declare toString.simps [simp del]

definition passwordFields :: "'f encode_state \<Rightarrow> (string \<times> 'f form_value) list" where
  "passwordFields s =
     (if useEncryption s \<and> password s \<noteq> [] then [(''password'', TextValue (password s))] else [])"

definition handleEncode :: "'f encode_state \<Rightarrow> 'f request option" where
  "handleEncode s =
     (case coverImage s of
        None \<Rightarrow> None
      | Some img \<Rightarrow>
          (case activeTab s of
             TextTab \<Rightarrow>
               Some \<lparr>url = ''http://localhost:5000/stego/hide-text'',
                     body = [(''file'', FileValue img), (''text'', TextValue (secretText s))]
                            @ passwordFields s
                            @ [(''bits_per_channel'', TextValue (toString (bitsPerChannel s)))]\<rparr>
           | FileTab \<Rightarrow>
               Some \<lparr>url = ''http://localhost:5000/stego/hide-file'',
                     body = [(''file'', FileValue img), (''cover'', FileValue img),
                             (''secret'', (case secretFile s of
                                             None \<Rightarrow> TextValue ''null''
                                           | Some f \<Rightarrow> FileValue f))]
                            @ passwordFields s
                            @ [(''bits_per_channel'', TextValue (toString (bitsPerChannel s)))]\<rparr>))"

definition field_names :: "'f request option \<Rightarrow> string set" where
  "field_names r = (case r of None \<Rightarrow> {} | Some q \<Rightarrow> fst ` set (body q))"

section \<open>The steganographic codec\<close>

text \<open>
  The interface above posts to the endpoints \<^verbatim>\<open>/stego/hide-text\<close>,
  \<^verbatim>\<open>/stego/hide-file\<close>, \<^verbatim>\<open>/stego/reveal-text\<close> and \<^verbatim>\<open>/stego/capacity\<close>.
  The service behind them is not among the source files, so the codec is modelled from
  the specification (sections 3, 4, 6 and 7). What the specification leaves open is a
  parameter of the model (the record \<open>codec\<close>): the magic marker, the format version,
  the safety margin, the checksum, and the three transform stages with their inverses.
  Where the specification asks for a choice (the bit convention, the width of the header
  fields, the unit of the start offset), the choice made is stated at the definition.
\<close>

subsection \<open>Bits, bytes and channel values\<close>

type_synonym byte = "8 word"

text \<open>
  Modelled from the spec: the bit convention of the packer (section 4.4, "a fixed big- or
  little-endian bit convention must be chosen"); the packer itself is missing. The bits
  of a word are listed most significant first.
\<close>

definition word_bits :: "'a::len word \<Rightarrow> bool list" where
  "word_bits w = rev (map (bit w) [0..<LENGTH('a)])"

text \<open>
  Modelled from the spec: the inverse of the bit convention above, for the missing
  unpacker (section 4.4).
\<close>

definition bits_word :: "bool list \<Rightarrow> 'a::len word" where
  "bits_word bs = horner_sum of_bool 2 (rev bs)"

text \<open>
  Modelled from the spec: the payload as a bit stream (section 2, data flow of encode);
  the missing orchestrator turns the transformed payload bytes into bits.
\<close>

definition bytes_to_bits :: "byte list \<Rightarrow> bool list" where
  "bytes_to_bits bs = concat (map word_bits bs)"

text \<open>
  Modelled from the spec: the bit stream read back as bytes (section 2, data flow of
  decode), for the missing orchestrator. Fewer than eight trailing bits are dropped.
\<close>

function bits_to_bytes :: "bool list \<Rightarrow> byte list" where
  "bits_to_bytes bs =
     (if length bs < 8 then [] else bits_word (take 8 bs) # bits_to_bytes (drop 8 bs))"
  by pat_completeness auto
termination
  by (relation "measure length") auto

declare bits_to_bytes.simps [simp del]

text \<open>
  Modelled from the spec: the write of the missing packer into one channel value
  (section 4.4): the low \<open>b\<close> bits take the chunk, the higher-order bits are preserved.
  A last chunk shorter than \<open>b\<close> fills the upper part of the low field and leaves the
  rest of the field as it was.
\<close>

definition write_low :: "nat \<Rightarrow> bool list \<Rightarrow> byte \<Rightarrow> byte" where
  "write_low b chunk v =
     (let old = word_bits v
      in bits_word (take (8 - b) old @ chunk @ drop (8 - b + length chunk) old))"

text \<open>
  Modelled from the spec: the read of the missing unpacker from one channel value
  (section 4.4): its low \<open>b\<close> bits.
\<close>

definition read_low :: "nat \<Rightarrow> byte \<Rightarrow> bool list" where
  "read_low b v = drop (8 - b) (word_bits v)"

subsection \<open>Images and channel masks\<close>

text \<open>
  Modelled from the spec: the data model of section 3. A pixel has the channels R, G and
  B; an alpha channel is never used for embedding and is left out. An image is its
  dimensions and its pixels in raster order. A channel mask is a subset of the three
  channels.
\<close>

record pixel =
  red :: byte
  green :: byte
  blue :: byte

record image =
  image_width :: nat
  image_height :: nat
  pixels :: "pixel list"

record channel_mask =
  use_r :: bool
  use_g :: bool
  use_b :: bool

text \<open>
  Modelled from the spec: \<open>|channel_mask|\<close>, the number of selected channels
  (section 4.2), for the missing capacity calculator.
\<close>

definition mask_size :: "channel_mask \<Rightarrow> nat" where
  "mask_size m = of_bool (use_r m) + of_bool (use_g m) + of_bool (use_b m)"

text \<open>
  Modelled from the spec: the mask of the header, "R, G, B" (section 4.1); the header
  codec is missing.
\<close>

definition rgb_mask :: channel_mask where
  "rgb_mask = \<lparr>use_r = True, use_g = True, use_b = True\<rparr>"

text \<open>
  Modelled from the spec: a malformed image is a validation error (section 7); the
  missing orchestrator checks that the pixel buffer has width times height pixels.
\<close>

definition image_ok :: "image \<Rightarrow> bool" where
  "image_ok img \<longleftrightarrow> length (pixels img) = image_width img * image_height img"

subsection \<open>Bit packer and unpacker (section 4.4)\<close>

text \<open>
  Modelled from the spec: one step of the missing packer on one channel. A selected
  channel takes the next \<open>b\<close> bits while bits remain; an unselected channel is skipped.
\<close>

definition pack_channel :: "bool \<Rightarrow> nat \<Rightarrow> byte \<Rightarrow> bool list \<Rightarrow> byte \<times> bool list" where
  "pack_channel selected b v bits =
     (if selected \<and> bits \<noteq> [] then (write_low b (take b bits) v, drop b bits) else (v, bits))"

text \<open>
  Modelled from the spec: the missing packer on one pixel; "within a pixel, channel order
  fixed as R, G, B" (section 4.4).
\<close>

definition pack_pixel :: "channel_mask \<Rightarrow> nat \<Rightarrow> pixel \<Rightarrow> bool list \<Rightarrow> pixel \<times> bool list" where
  "pack_pixel m b px bits =
     (let (r, bits1) = pack_channel (use_r m) b (red px) bits;
          (g, bits2) = pack_channel (use_g m) b (green px) bits1;
          (bl, bits3) = pack_channel (use_b m) b (blue px) bits2
      in (\<lparr>red = r, green = g, blue = bl\<rparr>, bits3))"

text \<open>
  Modelled from the spec: the missing packer over the pixels in raster order. Pixels
  after the last bit are left as they are; bits left over when the pixels run out are a
  capacity failure (\<open>None\<close>), never wrapped or truncated.
\<close>

fun pack_pixels :: "channel_mask \<Rightarrow> nat \<Rightarrow> pixel list \<Rightarrow> bool list \<Rightarrow> pixel list option" where
  "pack_pixels m b pxs [] = Some pxs"
| "pack_pixels m b [] (x # xs) = None"
| "pack_pixels m b (px # pxs) (x # xs) =
     (let (px', rest) = pack_pixel m b px (x # xs)
      in map_option ((#) px') (pack_pixels m b pxs rest))"

text \<open>
  Modelled from the spec: the read of the missing unpacker from one channel: the low
  bits of a selected channel, nothing from an unselected one.
\<close>

definition read_channel :: "bool \<Rightarrow> nat \<Rightarrow> byte \<Rightarrow> bool list" where
  "read_channel selected b v = (if selected then read_low b v else [])"

text \<open>
  Modelled from the spec: the read of the missing unpacker from one pixel, channels in
  the order R, G, B.
\<close>

definition read_pixel :: "channel_mask \<Rightarrow> nat \<Rightarrow> pixel \<Rightarrow> bool list" where
  "read_pixel m b px =
     read_channel (use_r m) b (red px) @ read_channel (use_g m) b (green px)
       @ read_channel (use_b m) b (blue px)"

text \<open>
  Modelled from the spec: the bit stream that the missing unpacker sees in a run of
  pixels, in raster order.
\<close>

definition read_pixels :: "channel_mask \<Rightarrow> nat \<Rightarrow> pixel list \<Rightarrow> bool list" where
  "read_pixels m b pxs = concat (map (read_pixel m b) pxs)"

text \<open>
  Modelled from the spec: the error taxonomy of section 7; the service that reports
  these errors is missing.
\<close>

datatype error =
  CapacityExceededError | InvalidParameterError | NoHiddenDataError
| CorruptPayloadError | DecryptionError | UnsupportedCombinationError

text \<open>
  Modelled from the spec: the contract
  \<open>pack(bits, image, channel_mask, bits_per_channel, start_offset)\<close> of the missing
  packer (section 4.4). The start offset counts pixels. The result is a new image; the
  argument is not changed.
\<close>

definition pack :: "bool list \<Rightarrow> image \<Rightarrow> channel_mask \<Rightarrow> nat \<Rightarrow> nat \<Rightarrow> error + image" where
  "pack bits img m b start_offset =
     (case pack_pixels m b (drop start_offset (pixels img)) bits of
        None \<Rightarrow> Inl CapacityExceededError
      | Some pxs \<Rightarrow> Inr (img\<lparr>pixels := take start_offset (pixels img) @ pxs\<rparr>))"

text \<open>
  Modelled from the spec: the contract
  \<open>unpack(image, channel_mask, bits_per_channel, start_offset, bit_count)\<close> of the
  missing unpacker (section 4.4), a pure read; \<open>None\<close> when the image holds fewer bits
  than asked for.
\<close>

definition unpack :: "image \<Rightarrow> channel_mask \<Rightarrow> nat \<Rightarrow> nat \<Rightarrow> nat \<Rightarrow> bool list option" where
  "unpack img m b start_offset bit_count =
     (let stream = read_pixels m b (drop start_offset (pixels img))
      in if bit_count \<le> length stream then Some (take bit_count stream) else None)"

text \<open>
  Modelled from the spec: "higher-order bits of the channel are preserved unchanged"
  (section 4.4): the bits of the three channels of a pixel above the low \<open>b\<close> ones, the
  part of a pixel that the missing packer must not touch.
\<close>

definition high_bits :: "nat \<Rightarrow> pixel \<Rightarrow> bool list \<times> bool list \<times> bool list" where
  "high_bits b px =
     (take (8 - b) (word_bits (red px)), take (8 - b) (word_bits (green px)),
      take (8 - b) (word_bits (blue px)))"

subsection \<open>Header codec (sections 3 and 4.1)\<close>

text \<open>
  Modelled from the spec: the flags bitmask \<open>{compressed, encrypted, error-corrected}\<close>
  of the header, "modeled internally as a structured record" (section 9); the header
  codec is missing.
\<close>

record flags =
  compressed :: bool
  encrypted :: bool
  error_corrected :: bool

text \<open>
  Modelled from the spec: the record \<open>EmbeddingHeader\<close> of section 3, without the magic
  marker, which is a constant of the codec; the header codec is missing.
\<close>

record header =
  hdr_version :: byte
  hdr_flags :: flags
  hdr_bits_per_channel :: nat
  hdr_mask :: channel_mask
  payload_length :: nat
  hdr_checksum :: "32 word"

text \<open>
  Modelled from the spec: the error-correction levels "low, medium, high" (section 4.3);
  the coding scheme is missing.
\<close>

datatype ec_level = Low | Medium | High

text \<open>
  Modelled from the spec: everything the specification names without fixing it. The
  magic marker and the format version (section 3), the safety margin of the capacity
  formula (section 4.2), the integrity checksum, and the three stages of section 4.3
  with their inverses: a lossless compressor, a password-based authenticated cipher
  (arguments: password, salt, nonce, plaintext; the result stands for
  salt, nonce, ciphertext and tag together), and an error-correcting code. An inverse
  returns \<open>None\<close> when it rejects its input. Passwords are byte strings.
\<close>

record codec =
  magic :: "32 word"
  version :: byte
  safety_margin :: nat
  checksum_fn :: "byte list \<Rightarrow> 32 word"
  compress_fn :: "byte list \<Rightarrow> byte list"
  decompress_fn :: "byte list \<Rightarrow> byte list option"
  encrypt_fn :: "byte list \<Rightarrow> byte list \<Rightarrow> byte list \<Rightarrow> byte list \<Rightarrow> byte list"
  decrypt_fn :: "byte list \<Rightarrow> byte list \<Rightarrow> byte list option"
  ec_encode_fn :: "ec_level \<Rightarrow> byte list \<Rightarrow> byte list"
  ec_decode_fn :: "byte list \<Rightarrow> byte list option"

text \<open>
  Modelled from the spec: the flags as they go on the wire, "packed into one integer"
  (section 9), for the missing header codec: one byte, the five upper bits zero.
\<close>

definition flags_bits :: "flags \<Rightarrow> bool list" where
  "flags_bits f = [False, False, False, False, False, error_corrected f, encrypted f, compressed f]"

text \<open>
  Modelled from the spec: the flags byte read back by the missing header codec; a byte
  with one of the five upper bits set is not a flags byte.
\<close>

definition parse_flags :: "bool list \<Rightarrow> flags option" where
  "parse_flags bs =
     (if length bs = 8 \<and> take 5 bs = [False, False, False, False, False]
      then Some \<lparr>compressed = bs ! 7, encrypted = bs ! 6, error_corrected = bs ! 5\<rparr>
      else None)"

text \<open>
  Modelled from the spec: the channel mask as it goes on the wire, for the missing
  header codec: one byte, the five upper bits zero.
\<close>

definition mask_bits :: "channel_mask \<Rightarrow> bool list" where
  "mask_bits m = [False, False, False, False, False, use_b m, use_g m, use_r m]"

text \<open>
  Modelled from the spec: the channel-mask byte read back by the missing header codec.
\<close>

definition parse_mask :: "bool list \<Rightarrow> channel_mask option" where
  "parse_mask bs =
     (if length bs = 8 \<and> take 5 bs = [False, False, False, False, False]
      then Some \<lparr>use_r = bs ! 7, use_g = bs ! 6, use_b = bs ! 5\<rparr>
      else None)"

text \<open>
  Modelled from the spec: the "width-independent fixed header size" in bits
  (section 4.2), for the missing header codec. The fields are laid out as magic (32 bits),
  version (8), flags (8), bits per channel (8), channel mask (8), payload length (32) and
  checksum (32).
\<close>

definition header_bits :: nat where
  "header_bits = 128"

text \<open>
  Modelled from the spec: the number of leading pixels that the header occupies at one
  bit per channel over R, G and B (section 4.1); the payload of the missing orchestrator
  starts at the pixel after them.
\<close>

definition header_pixels :: nat where
  "header_pixels = (header_bits + 2) div 3"

text \<open>
  Modelled from the spec: the contract \<open>write_header\<close> of the missing header codec
  (section 4.1): the header as a bit sequence of fixed length.
\<close>

definition write_header :: "codec \<Rightarrow> header \<Rightarrow> bool list" where
  "write_header C h =
     word_bits (magic C) @ word_bits (hdr_version h) @ flags_bits (hdr_flags h)
     @ word_bits (of_nat (hdr_bits_per_channel h) :: byte) @ mask_bits (hdr_mask h)
     @ word_bits (of_nat (payload_length h) :: 32 word) @ word_bits (hdr_checksum h)"

text \<open>
  Modelled from the spec: the parser of the missing header codec (section 4.1). A magic
  marker that does not match, a depth outside 1 to 8 or an empty mask is "no hidden
  data"; a version or a flags byte that the codec does not know is the reserved
  \<open>UnsupportedCombinationError\<close> (section 7).
\<close>

definition parse_header :: "codec \<Rightarrow> bool list \<Rightarrow> error + header" where
  "parse_header C bs =
     (let m = take 32 bs; v = take 8 (drop 32 bs); f = take 8 (drop 40 bs);
          d = take 8 (drop 48 bs); c = take 8 (drop 56 bs); l = take 32 (drop 64 bs);
          k = take 32 (drop 96 bs)
      in if length bs \<noteq> header_bits \<or> bits_word m \<noteq> magic C then Inl NoHiddenDataError
         else if bits_word v \<noteq> version C then Inl UnsupportedCombinationError
         else (case parse_flags f of
                 None \<Rightarrow> Inl UnsupportedCombinationError
               | Some fl \<Rightarrow>
                   (case parse_mask c of
                      None \<Rightarrow> Inl NoHiddenDataError
                    | Some mk \<Rightarrow>
                        (let depth = unat (bits_word d :: byte)
                         in if depth < 1 \<or> 8 < depth \<or> mask_size mk = 0
                            then Inl NoHiddenDataError
                            else Inr \<lparr>hdr_version = bits_word v, hdr_flags = fl,
                                      hdr_bits_per_channel = depth, hdr_mask = mk,
                                      payload_length = unat (bits_word l :: 32 word),
                                      hdr_checksum = bits_word k\<rparr>))))"

text \<open>
  Modelled from the spec: the contract \<open>read_header(image)\<close> of the missing header
  codec (section 4.1): the header bits are read at one bit per channel over R, G and B
  from the first pixel on, whatever the payload's own depth and mask; the image is the
  only argument besides the constants of the codec.
\<close>

definition read_header :: "codec \<Rightarrow> image \<Rightarrow> error + header" where
  "read_header C img =
     (case unpack img rgb_mask 1 0 header_bits of
        None \<Rightarrow> Inl NoHiddenDataError
      | Some bs \<Rightarrow> parse_header C bs)"

subsection \<open>Capacity calculator (section 4.2)\<close>

text \<open>
  Modelled from the spec: \<open>raw_bits = width * height * |channel_mask| * bits_per_channel\<close>
  of the missing capacity calculator.
\<close>

definition raw_bits :: "nat \<Rightarrow> nat \<Rightarrow> channel_mask \<Rightarrow> nat \<Rightarrow> int" where
  "raw_bits w h m b = int w * int h * int (mask_size m) * int b"

text \<open>
  Modelled from the spec:
  \<open>usable_bytes = floor((raw_bits - header_bits_reserved) / 8) - safety_margin\<close> of the
  missing capacity calculator, with the header size for \<open>header_bits_reserved\<close>.
\<close>

definition capacity :: "codec \<Rightarrow> nat \<Rightarrow> nat \<Rightarrow> channel_mask \<Rightarrow> nat \<Rightarrow> int" where
  "capacity C w h m b = (raw_bits w h m b - int header_bits) div 8 - int (safety_margin C)"

text \<open>
  Modelled from the spec: the \<open>CapacityReport\<close> of section 3, the table from the
  depths 1 to 8 to the usable capacity, for the missing capacity endpoint.
\<close>

definition capacity_report :: "codec \<Rightarrow> image \<Rightarrow> channel_mask \<Rightarrow> (nat \<times> int) list" where
  "capacity_report C img m =
     map (\<lambda>b. (b, capacity C (image_width img) (image_height img) m b)) [1..<9]"

subsection \<open>Payload transform pipeline (section 4.3)\<close>

text \<open>
  Modelled from the spec: the parameters of hide-text and hide-file (section 6) that the
  missing orchestrator receives: depth, channel mask, compression, optional password and
  optional error-correction level.
\<close>

record encode_params =
  bits_per_channel :: nat
  prm_mask :: channel_mask
  do_compress :: bool
  passphrase :: "byte list option"
  error_correction :: "ec_level option"

text \<open>
  Modelled from the spec: the encode side of the missing pipeline. The payload passes
  compression, then encryption, then error correction, each stage only when it is
  enabled and each on the output of the stage before. Salt and nonce, freshly random in
  the service, are arguments.
\<close>

definition transform_payload ::
  "codec \<Rightarrow> encode_params \<Rightarrow> byte list \<Rightarrow> byte list \<Rightarrow> byte list \<Rightarrow> byte list" where
  "transform_payload C prm salt nonce payload =
     (let d1 = (if do_compress prm then compress_fn C payload else payload);
          d2 = (case passphrase prm of None \<Rightarrow> d1 | Some pw \<Rightarrow> encrypt_fn C pw salt nonce d1);
          d3 = (case error_correction prm of None \<Rightarrow> d2 | Some lv \<Rightarrow> ec_encode_fn C lv d2)
      in d3)"

text \<open>
  Modelled from the spec: "each stage's presence is recorded in the header flags"
  (section 4.3), for the missing orchestrator.
\<close>

definition flags_of :: "encode_params \<Rightarrow> flags" where
  "flags_of prm =
     \<lparr>compressed = do_compress prm, encrypted = (passphrase prm \<noteq> None),
      error_corrected = (error_correction prm \<noteq> None)\<rparr>"

text \<open>
  Modelled from the spec: a stage inverse that rejects its input becomes the error of
  that stage, for the missing pipeline.
\<close>

definition or_error :: "error \<Rightarrow> 'a option \<Rightarrow> error + 'a" where
  "or_error e r = (case r of None \<Rightarrow> Inl e | Some x \<Rightarrow> Inr x)"

text \<open>
  Modelled from the spec: "each stage either produces a well-defined error or hands off
  to the next" (section 4.6), the sequencing of the missing orchestrator.
\<close>

definition and_then :: "error + 'a \<Rightarrow> ('a \<Rightarrow> error + 'b) \<Rightarrow> error + 'b" where
  "and_then r f = (case r of Inl e \<Rightarrow> Inl e | Inr x \<Rightarrow> f x)"

text \<open>
  Modelled from the spec: the state "Invert error-correction" of the missing decoder
  (section 4.6), run when the header flag is set. Data that the code cannot repair is
  reported as corruption.
\<close>

definition invert_error_correction :: "codec \<Rightarrow> flags \<Rightarrow> byte list \<Rightarrow> error + byte list" where
  "invert_error_correction C fl d =
     (if error_corrected fl then or_error CorruptPayloadError (ec_decode_fn C d) else Inr d)"

text \<open>
  Modelled from the spec: the state "Invert encryption (verify auth tag)" of the missing
  decoder (section 4.6), run when the header flag is set. A missing password and a
  failed tag verification are both \<open>DecryptionError\<close>.
\<close>

definition invert_encryption ::
  "codec \<Rightarrow> flags \<Rightarrow> byte list option \<Rightarrow> byte list \<Rightarrow> error + byte list" where
  "invert_encryption C fl pw d =
     (if encrypted fl
      then (case pw of
              None \<Rightarrow> Inl DecryptionError
            | Some p \<Rightarrow> or_error DecryptionError (decrypt_fn C p d))
      else Inr d)"

text \<open>
  Modelled from the spec: the state "Invert compression" of the missing decoder
  (section 4.6), run when the header flag is set. Data that does not decompress is
  reported as corruption.
\<close>

definition invert_compression :: "codec \<Rightarrow> flags \<Rightarrow> byte list \<Rightarrow> error + byte list" where
  "invert_compression C fl d =
     (if compressed fl then or_error CorruptPayloadError (decompress_fn C d) else Inr d)"

text \<open>
  Modelled from the spec: the decode side of the missing pipeline, "error-correction
  decode, then decrypt, then decompress" (section 2).
\<close>

definition invert_payload ::
  "codec \<Rightarrow> flags \<Rightarrow> byte list option \<Rightarrow> byte list \<Rightarrow> error + byte list" where
  "invert_payload C fl pw d =
     and_then (and_then (invert_error_correction C fl d) (invert_encryption C fl pw))
              (invert_compression C fl)"

subsection \<open>Codec orchestrator (section 4.6)\<close>

text \<open>
  Modelled from the spec: the state "Validate inputs" of the missing encoder: the depth
  is in 1 to 8, the mask is not empty, the image is well formed (sections 3 and 7).
\<close>

definition validate :: "encode_params \<Rightarrow> image \<Rightarrow> bool" where
  "validate prm img \<longleftrightarrow>
     1 \<le> bits_per_channel prm \<and> bits_per_channel prm \<le> 8 \<and> 0 < mask_size (prm_mask prm)
     \<and> image_ok img"

text \<open>
  Modelled from the spec: the state "Check capacity" of the missing encoder: the
  transformed payload is no longer than the usable capacity, computed as the capacity
  calculator computes it. The length must also fit the 32 bits of the header's length
  field.
\<close>

definition fits :: "codec \<Rightarrow> encode_params \<Rightarrow> image \<Rightarrow> byte list \<Rightarrow> bool" where
  "fits C prm img t \<longleftrightarrow>
     int (length t) < 2 ^ 32
     \<and> int (length t)
         \<le> capacity C (image_width img) (image_height img) (prm_mask prm) (bits_per_channel prm)"

text \<open>
  Modelled from the spec: the state "Compute length+checksum" of the missing encoder:
  the header "assembled from transform flags + bit depth + channel mask + length +
  checksum" of the transformed payload (section 2).
\<close>

definition make_header :: "codec \<Rightarrow> encode_params \<Rightarrow> byte list \<Rightarrow> header" where
  "make_header C prm t =
     \<lparr>hdr_version = version C, hdr_flags = flags_of prm,
      hdr_bits_per_channel = bits_per_channel prm, hdr_mask = prm_mask prm,
      payload_length = length t, hdr_checksum = checksum_fn C t\<rparr>"

text \<open>
  Modelled from the spec: the state machine of the missing encoder,
  "Validate inputs, Transform payload, Compute length+checksum, Check capacity, Write
  header, Write payload, Done" (section 4.6). The run works on a buffer that starts as a
  copy of the source image; it returns the error, if any, together with the buffer as it
  stands when the run stops. The header is written at depth 1 over R, G and B from
  pixel 0, the payload at the configured depth and mask from the pixel after the header.
\<close>

definition encode_run ::
  "codec \<Rightarrow> encode_params \<Rightarrow> byte list \<Rightarrow> byte list \<Rightarrow> byte list \<Rightarrow> image
     \<Rightarrow> error option \<times> image" where
  "encode_run C prm salt nonce payload img =
     (if \<not> validate prm img then (Some InvalidParameterError, img)
      else
        let t = transform_payload C prm salt nonce payload;
            h = make_header C prm t
        in if \<not> fits C prm img t then (Some CapacityExceededError, img)
           else
             (case pack (write_header C h) img rgb_mask 1 0 of
                Inl e \<Rightarrow> (Some e, img)
              | Inr buf1 \<Rightarrow>
                  (case pack (bytes_to_bits t) buf1 (prm_mask prm) (bits_per_channel prm)
                          header_pixels of
                     Inl e \<Rightarrow> (Some e, buf1)
                   | Inr buf2 \<Rightarrow> (None, buf2))))"

text \<open>
  Modelled from the spec: the operation encode of the missing service as its callers see
  it (section 7): "a complete valid image or no image".
\<close>

definition encode ::
  "codec \<Rightarrow> encode_params \<Rightarrow> byte list \<Rightarrow> byte list \<Rightarrow> byte list \<Rightarrow> image \<Rightarrow> error + image" where
  "encode C prm salt nonce payload img =
     (case encode_run C prm salt nonce payload img of
        (Some e, buf) \<Rightarrow> Inl e
      | (None, buf) \<Rightarrow> Inr buf)"

text \<open>
  Modelled from the spec: the state "Read payload (header-specified depth, mask,
  length)" of the missing decoder. An image too small for the length that the header
  announces is reported as corruption.
\<close>

definition read_payload :: "image \<Rightarrow> header \<Rightarrow> error + byte list" where
  "read_payload img h =
     (case unpack img (hdr_mask h) (hdr_bits_per_channel h) header_pixels (8 * payload_length h) of
        None \<Rightarrow> Inl CorruptPayloadError
      | Some bs \<Rightarrow> Inr (bits_to_bytes bs))"

text \<open>
  Modelled from the spec: the state "Verify checksum, if mismatch: report corruption" of
  the missing decoder.
\<close>

definition verify_checksum :: "codec \<Rightarrow> header \<Rightarrow> byte list \<Rightarrow> error + byte list" where
  "verify_checksum C h d =
     (if checksum_fn C d = hdr_checksum h then Inr d else Inl CorruptPayloadError)"

text \<open>
  Modelled from the spec: the state machine of the missing decoder, "Read header, Read
  payload, Verify checksum, Invert error-correction, Invert encryption, Invert
  compression, Return payload" (section 4.6). The image and the optional password are
  the only arguments.
\<close>

definition decode :: "codec \<Rightarrow> byte list option \<Rightarrow> image \<Rightarrow> error + byte list" where
  "decode C pw img =
     and_then (read_header C img) (\<lambda>h.
       and_then (read_payload img h) (\<lambda>d.
         and_then (verify_checksum C h d) (invert_payload C (hdr_flags h) pw)))"


subsection \<open>Contracts of the parameters\<close>


text \<open>
  Modelled from the spec: the invariants on a header that the missing encoder writes
  (section 3), plus the bound of the length field.
\<close>

definition header_ok :: "codec \<Rightarrow> header \<Rightarrow> bool" where
  "header_ok C h \<longleftrightarrow>
     hdr_version h = version C \<and> 1 \<le> hdr_bits_per_channel h \<and> hdr_bits_per_channel h \<le> 8
     \<and> 0 < mask_size (hdr_mask h) \<and> int (payload_length h) < 2 ^ 32"

text \<open>
  How a packing step carries a bit stream: the bits that the step wrote (\<open>out\<close>, as
  the unpacker reads them back) followed by the bits it left (\<open>rest\<close>) start with the
  stream, and are the stream when bits are left.
\<close>

definition carried :: "bool list \<Rightarrow> bool list \<Rightarrow> bool list \<Rightarrow> bool" where
  "carried bits out rest \<longleftrightarrow> prefix bits (out @ rest) \<and> (rest \<noteq> [] \<longrightarrow> out @ rest = bits)"

subsection \<open>An example codec\<close>

text \<open>
  A small instance of the parameters, to run the model on concrete images. The stages
  are simple on purpose: a marker byte for compression, a password block in front of
  the shifted plaintext for the cipher, a level byte and two copies for error correction.
\<close>

definition sum_checksum :: "byte list \<Rightarrow> 32 word" where
  "sum_checksum bs = foldr (\<lambda>b acc. ucast b + acc) bs 0"

definition toy_compress :: "byte list \<Rightarrow> byte list" where
  "toy_compress d = 67 # d"

definition toy_decompress :: "byte list \<Rightarrow> byte list option" where
  "toy_decompress d = (case d of [] \<Rightarrow> None | t # r \<Rightarrow> if t = 67 then Some r else None)"

definition key_block :: "byte list \<Rightarrow> byte list" where
  "key_block pw = concat (map (\<lambda>b. [1, b]) pw) @ [0]"

definition toy_encrypt :: "byte list \<Rightarrow> byte list \<Rightarrow> byte list \<Rightarrow> byte list \<Rightarrow> byte list" where
  "toy_encrypt pw salt nonce d = key_block pw @ map (\<lambda>b. b + 90) d"

definition toy_decrypt :: "byte list \<Rightarrow> byte list \<Rightarrow> byte list option" where
  "toy_decrypt pw d =
     (if prefix (key_block pw) d then Some (map (\<lambda>b. b - 90) (drop (length (key_block pw)) d))
      else None)"

definition level_byte :: "ec_level \<Rightarrow> byte" where
  "level_byte lv = (case lv of Low \<Rightarrow> 1 | Medium \<Rightarrow> 2 | High \<Rightarrow> 3)"

definition toy_ec_encode :: "ec_level \<Rightarrow> byte list \<Rightarrow> byte list" where
  "toy_ec_encode lv d = level_byte lv # d @ d"

definition toy_ec_decode :: "byte list \<Rightarrow> byte list option" where
  "toy_ec_decode d =
     (case d of
        [] \<Rightarrow> None
      | t # r \<Rightarrow>
          (let n = length r div 2
           in if t \<in> {1, 2, 3} \<and> even (length r) \<and> take n r = drop n r then Some (take n r)
              else None))"

definition toy_codec :: codec where
  "toy_codec =
     \<lparr>magic = 0x53544547, version = 1, safety_margin = 113, checksum_fn = sum_checksum,
      compress_fn = toy_compress, decompress_fn = toy_decompress,
      encrypt_fn = toy_encrypt, decrypt_fn = toy_decrypt,
      ec_encode_fn = toy_ec_encode, ec_decode_fn = toy_ec_decode\<rparr>"

text \<open>A cover image of one colour.\<close>

definition flat_image :: "nat \<Rightarrow> nat \<Rightarrow> image" where
  "flat_image w h =
     \<lparr>image_width = w, image_height = h,
      pixels = replicate (w * h) \<lparr>red = 128, green = 129, blue = 130\<rparr>\<rparr>"


text \<open>Parameters with all three stages, at depth 3 over R and B, password "pw".\<close>

definition full_params :: encode_params where
  "full_params =
     \<lparr>bits_per_channel = 3, prm_mask = \<lparr>use_r = True, use_g = False, use_b = True\<rparr>,
      do_compress = True, passphrase = Some [112, 119], error_correction = Some Medium\<rparr>"

text \<open>The text "HELLO".\<close>

definition hello :: "byte list" where
  "hello = [72, 69, 76, 76, 79]"



text \<open>Parameters with compression and encryption, at depth 8 over R, G and B, password "pw".\<close>

definition secret_params :: encode_params where
  "secret_params =
     \<lparr>bits_per_channel = 8, prm_mask = rgb_mask, do_compress = True,
      passphrase = Some [112, 119], error_correction = None\<rparr>"

text \<open>
  An image damaged after encoding: "HELLO" is hidden, compressed and encrypted, at depth
  8 in a 12 by 4 image. The eleven bytes of the transformed payload lie in the pixels 43
  to 46; the red value of pixel 45, a byte of the ciphertext, is changed from 162 to 163.
\<close>

definition damaged :: image where
  "damaged =
     (case encode toy_codec secret_params [1, 2, 3] [4, 5, 6] hello (flat_image 12 4) of
        Inl e \<Rightarrow> flat_image 12 4
      | Inr img \<Rightarrow> img\<lparr>pixels := (pixels img)[45 := \<lparr>red = 163, green = 159, blue = 166\<rparr>]\<rparr>)"

section \<open>Properties of the encode interface\<close>

lemma totalBits_nonneg: "0 \<le> totalBits w h chs bits"
  by (simp add: totalBits_def Let_def)

lemma totalBits_mono:
  assumes "length chs1 \<le> length chs2" and "b1 \<le> b2"
  shows "totalBits w h chs1 b1 \<le> totalBits w h chs2 b2"
proof -
  have "int (length chs1) * int b1 \<le> int (length chs2) * int b2"
    using assms by (intro mult_mono) simp_all
  then have "(int w * int h) * (int (length chs1) * int b1)
             \<le> (int w * int h) * (int (length chs2) * int b2)"
    by (intro mult_left_mono) simp_all
  then show ?thesis
    by (simp add: totalBits_def Let_def mult.assoc)
qed

lemma usableCapacity_mono:
  assumes "length chs1 \<le> length chs2" and "b1 \<le> b2"
  shows "usableCapacity w h chs1 b1 \<le> usableCapacity w h chs2 b2"
proof -
  have "totalBits w h chs1 b1 div 8 \<le> totalBits w h chs2 b2 div 8"
    using totalBits_mono [OF assms] by (rule zdiv_mono1) simp
  then show ?thesis
    by (simp add: usableCapacity_def capacityBytes_def)
qed

lemma usableCapacity_large:
  assumes "800 \<le> totalBits w h chs bits"
  shows "usableCapacity w h chs bits = totalBits w h chs bits div 8 - 100"
proof -
  have "800 div 8 \<le> totalBits w h chs bits div 8"
    using assms by (rule zdiv_mono1) simp
  then show ?thesis
    by (simp add: usableCapacity_def capacityBytes_def)
qed

lemma usableCapacity_small:
  assumes "totalBits w h chs bits < 800"
  shows "usableCapacity w h chs bits = 0"
proof -
  have "totalBits w h chs bits div 8 < 100"
    using assms by simp
  then show ?thesis
    by (simp add: usableCapacity_def capacityBytes_def)
qed

text \<open>
  C10. The usable-capacity estimate of the encode interface is
  \<open>max(0, floor(width * height * |channels| * bits_per_channel / 8) - 100)\<close> for every
  image size, channel selection and bit depth, and so it is never negative: an image too
  small for the 100-byte overhead gets the capacity 0.
\<close>

theorem usableCapacity_nonneg:
  "usableCapacity w h chs bits
     = max 0 ((int w * int h * int (length chs) * int bits) div 8 - 100)
   \<and> 0 \<le> usableCapacity w h chs bits
   \<and> maxCapacity (capacity_effect (s\<lparr>stats := Some st\<rparr>))
       = max 0 ((int (width st) * int (height st) * int (length (channels s))
                 * int (bitsPerChannel s)) div 8 - 100)"
  by (simp add: usableCapacity_def capacityBytes_def totalBits_def capacity_effect_def Let_def)

text \<open>
  C8. For fixed image dimensions the usable capacity does not decrease when the bit
  depth grows, and does not decrease when the number of selected channels grows.
\<close>

theorem usableCapacity_monotone:
  "(b1 \<le> b2 \<longrightarrow> usableCapacity w h chs b1 \<le> usableCapacity w h chs b2)
   \<and> (length chs1 \<le> length chs2 \<longrightarrow> usableCapacity w h chs1 b \<le> usableCapacity w h chs2 b)"
  by (simp add: usableCapacity_mono)

theorem usableCapacity_monotone_witness:
  "(1::nat) \<le> 8 \<and> length [''R''] \<le> length [''R'', ''G'', ''B'']
   \<and> usableCapacity 100 100 [''R'', ''G'', ''B''] 1 \<le> usableCapacity 100 100 [''R'', ''G'', ''B''] 8
   \<and> usableCapacity 100 100 [''R''] 2 \<le> usableCapacity 100 100 [''R'', ''G'', ''B''] 2
   \<and> usableCapacity 100 100 [''R'', ''G'', ''B''] 1 = 3650
   \<and> usableCapacity 100 100 [''R'', ''G'', ''B''] 8 = 29900"
  using usableCapacity_monotone [of 1 8 100 100 "[''R'', ''G'', ''B'']" "[''R'']" "[''R'', ''G'', ''B'']" 2]
  by (simp add: usableCapacity_def capacityBytes_def totalBits_def Let_def)

text \<open>
  C2, as stated: the reported capacity is
  \<open>floor((W * H * |channel_mask| * bits_per_channel - header_bits_reserved) / 8) - safety_margin\<close>
  for every image, with two fixed constants. No pair of constants fits the code: a
  1 by 1 image and a 100 by 100 image, both with the mask RGB at depth 1, already
  disagree, because the first is clamped to 0.
\<close>

theorem capacity_formula_counterexample:
  "\<not> (\<exists>header_bits_reserved safety_margin.
        usableCapacity 1 1 [''R'', ''G'', ''B''] 1
          = spec_usable_bytes header_bits_reserved safety_margin 1 1 [''R'', ''G'', ''B''] 1
      \<and> usableCapacity 100 100 [''R'', ''G'', ''B''] 1
          = spec_usable_bytes header_bits_reserved safety_margin 100 100 [''R'', ''G'', ''B''] 1)"
proof
  assume "\<exists>hb sm.
        usableCapacity 1 1 [''R'', ''G'', ''B''] 1 = spec_usable_bytes hb sm 1 1 [''R'', ''G'', ''B''] 1
      \<and> usableCapacity 100 100 [''R'', ''G'', ''B''] 1
          = spec_usable_bytes hb sm 100 100 [''R'', ''G'', ''B''] 1"
  then obtain hb sm :: int
    where small: "usableCapacity 1 1 [''R'', ''G'', ''B''] 1
                    = spec_usable_bytes hb sm 1 1 [''R'', ''G'', ''B''] 1"
      and large: "usableCapacity 100 100 [''R'', ''G'', ''B''] 1
                    = spec_usable_bytes hb sm 100 100 [''R'', ''G'', ''B''] 1"
    by blast
  have s: "(3 - hb) div 8 - sm = 0"
    using small
    by (simp add: usableCapacity_def capacityBytes_def totalBits_def spec_usable_bytes_def Let_def)
  have l: "(30000 - hb) div 8 - sm = 3650"
    using large
    by (simp add: usableCapacity_def capacityBytes_def totalBits_def spec_usable_bytes_def Let_def)
  from s l show False by presburger
qed

text \<open>
  C2, amended. When the image offers at least 800 raw bits, the reported capacity is
  the formula with a fixed overhead of 100 bytes in all: \<open>header_bits_reserved = 8 * k\<close>
  and \<open>safety_margin = 100 - k\<close> for any \<open>k\<close>, for instance 0 bits and 100 bytes,
  that is \<open>floor(W * H * |channel_mask| * bits_per_channel / 8) - 100\<close>; below 800 raw
  bits it is 0. For the mask RGB at depth 1 and \<open>W * H * 3 \<ge> 800\<close> it is
  \<open>floor(W * H * 3 / 8) - 100\<close>.
\<close>

theorem capacity_formula_clamped:
  "(800 \<le> totalBits w h chs bits \<longrightarrow>
      usableCapacity w h chs bits = spec_usable_bytes (8 * k) (100 - k) w h chs bits
      \<and> usableCapacity w h chs bits = spec_usable_bytes 0 100 w h chs bits)
   \<and> (totalBits w h chs bits < 800 \<longrightarrow> usableCapacity w h chs bits = 0)
   \<and> (800 \<le> int w * int h * 3 \<longrightarrow>
      usableCapacity w h [''R'', ''G'', ''B''] 1 = (int w * int h * 3) div 8 - 100)"
proof (intro conjI impI)
  assume a: "800 \<le> totalBits w h chs bits"
  have "totalBits w h chs bits - 8 * k = totalBits w h chs bits + (- k) * 8"
    by simp
  then have "(totalBits w h chs bits - 8 * k) div 8 = totalBits w h chs bits div 8 - k"
    by (simp only: div_mult_self1 [of 8 "totalBits w h chs bits" "- k"] div_mult_self2)
  with a show "usableCapacity w h chs bits = spec_usable_bytes (8 * k) (100 - k) w h chs bits"
    by (simp add: usableCapacity_large spec_usable_bytes_def)
  from a show "usableCapacity w h chs bits = spec_usable_bytes 0 100 w h chs bits"
    by (simp add: usableCapacity_large spec_usable_bytes_def)
next
  assume "totalBits w h chs bits < 800"
  then show "usableCapacity w h chs bits = 0"
    by (rule usableCapacity_small)
next
  assume "800 \<le> int w * int h * 3"
  then have "800 \<le> totalBits w h [''R'', ''G'', ''B''] 1"
    by (simp add: totalBits_def Let_def)
  then have "usableCapacity w h [''R'', ''G'', ''B''] 1 = totalBits w h [''R'', ''G'', ''B''] 1 div 8 - 100"
    by (rule usableCapacity_large)
  then show "usableCapacity w h [''R'', ''G'', ''B''] 1 = (int w * int h * 3) div 8 - 100"
    by (simp add: totalBits_def Let_def)
qed

theorem capacity_formula_clamped_witness:
  "800 \<le> totalBits 100 100 [''R'', ''G'', ''B''] 1
   \<and> usableCapacity 100 100 [''R'', ''G'', ''B''] 1 = spec_usable_bytes 0 100 100 100 [''R'', ''G'', ''B''] 1
   \<and> usableCapacity 100 100 [''R'', ''G'', ''B''] 1 = spec_usable_bytes 128 84 100 100 [''R'', ''G'', ''B''] 1
   \<and> usableCapacity 100 100 [''R'', ''G'', ''B''] 1 = 3650
   \<and> totalBits 10 10 [''R'', ''G''] 2 < 800
   \<and> usableCapacity 10 10 [''R'', ''G''] 2 = 0"
  using capacity_formula_clamped [of 100 100 "[''R'', ''G'', ''B'']" 1 16]
        capacity_formula_clamped [of 10 10 "[''R'', ''G'']" 2 16]
  by (simp add: totalBits_def spec_usable_bytes_def Let_def)

text \<open>
  C9. Changing the selected channels and the compression switch, and nothing else,
  leaves the request built by \<^verbatim>\<open>handleEncode\<close> the same; the request has no field
  besides the cover image, the text or the secret file, the optional password and
  \<^verbatim>\<open>bits_per_channel\<close>.
\<close>

theorem handleEncode_ignores_channels_compress:
  "handleEncode (s\<lparr>channels := chs, compress := c\<rparr>) = handleEncode s
   \<and> field_names (handleEncode s)
       \<subseteq> {''file'', ''cover'', ''text'', ''secret'', ''password'', ''bits_per_channel''}"
  by (auto simp: handleEncode_def passwordFields_def field_names_def
           split: option.splits tab.splits if_splits)

section \<open>Properties of the codec\<close>

subsection \<open>Bits and channel values\<close>

lemma length_word_bits [simp]: "length (word_bits (w::'a::len word)) = LENGTH('a)"
  by (simp add: word_bits_def)

lemma bits_word_word_bits [simp]: "bits_word (word_bits w) = w"
  by (simp add: word_bits_def bits_word_def horner_sum_bit_eq_take_bit)

lemma word_bits_bits_word [simp]:
  assumes "length bs = LENGTH('a::len)"
  shows "word_bits (bits_word bs :: 'a word) = bs"
proof -
  have "map (bit (horner_sum of_bool 2 (rev bs) :: 'a word)) [0..<LENGTH('a)] = rev bs"
    using assms by (intro nth_equalityI) (simp_all add: bit_horner_sum_bit_word_iff)
  then show ?thesis
    by (simp add: word_bits_def bits_word_def)
qed

lemma length_read_low [simp]: "b \<le> 8 \<Longrightarrow> length (read_low b v) = b"
  by (simp add: read_low_def)

lemma read_write_low:
  assumes "b \<le> 8" and "length chunk \<le> b"
  shows "read_low b (write_low b chunk v) = chunk @ drop (8 - b + length chunk) (word_bits v)"
  using assms by (simp add: read_low_def write_low_def Let_def)

lemma high_bits_write_low:
  assumes "b \<le> 8" and "length chunk \<le> b"
  shows "take (8 - b) (word_bits (write_low b chunk v)) = take (8 - b) (word_bits v)"
  using assms by (simp add: write_low_def Let_def)

subsection \<open>Packing and reading back\<close>

lemma carried_refl: "carried bits [] bits"
  by (simp add: carried_def)

lemma carried_trans:
  assumes "carried bits o1 r1" and "carried r1 o2 r2"
  shows "carried bits (o1 @ o2) r2"
proof (cases "r1 = []")
  case True
  with assms(2) have "r2 = []" by (auto simp: carried_def)
  moreover from True assms(1) have "prefix bits o1" by (simp add: carried_def)
  ultimately show ?thesis by (simp add: carried_def prefix_def) (metis append.assoc)
next
  case False
  with assms(1) have eq: "o1 @ r1 = bits" by (simp add: carried_def)
  from assms(2) have "prefix r1 (o2 @ r2)" and "r2 \<noteq> [] \<longrightarrow> o2 @ r2 = r1"
    by (simp_all add: carried_def)
  with eq show ?thesis by (auto simp: carried_def)
qed

lemma pack_channel_carried:
  assumes "0 < b" and "b \<le> 8" and "pack_channel sel b v bits = (v', rest)"
  shows "carried bits (read_channel sel b v') rest"
proof (cases "sel \<and> bits \<noteq> []")
  case True
  then have v': "v' = write_low b (take b bits) v" and rest: "rest = drop b bits"
    using assms(3) by (simp_all add: pack_channel_def)
  have rd: "read_channel sel b v' = take b bits @ drop (8 - b + length (take b bits)) (word_bits v)"
    using True assms(2) by (simp add: read_channel_def v' read_write_low)
  show ?thesis
  proof (cases "b \<le> length bits")
    case True
    then have "read_channel sel b v' = take b bits"
      using assms(2) by (simp add: rd min_def)
    then show ?thesis by (simp add: carried_def rest)
  next
    case False
    then have "rest = []" and "take b bits = bits" by (simp_all add: rest)
    then show ?thesis by (simp add: carried_def rd)
  qed
next
  case False
  then have "v' = v" and "rest = bits" using assms(3) by (auto simp: pack_channel_def)
  moreover have "sel \<Longrightarrow> bits = []" using False by simp
  ultimately show ?thesis by (auto simp: carried_def read_channel_def)
qed

lemma pack_pixel_carried:
  assumes "0 < b" and "b \<le> 8" and "pack_pixel m b px bits = (px', rest)"
  shows "carried bits (read_pixel m b px') rest"
proof -
  obtain r bits1 where 1: "pack_channel (use_r m) b (red px) bits = (r, bits1)" by force
  obtain g bits2 where 2: "pack_channel (use_g m) b (green px) bits1 = (g, bits2)" by force
  obtain bl bits3 where 3: "pack_channel (use_b m) b (blue px) bits2 = (bl, bits3)" by force
  from assms(3) have px': "px' = \<lparr>red = r, green = g, blue = bl\<rparr>" and rest: "rest = bits3"
    by (simp_all add: pack_pixel_def 1 2 3)
  have "carried bits (read_channel (use_r m) b r @ read_channel (use_g m) b g
          @ read_channel (use_b m) b bl) bits3"
    using carried_trans [OF pack_channel_carried [OF assms(1,2) 1]
            carried_trans [OF pack_channel_carried [OF assms(1,2) 2]
                               pack_channel_carried [OF assms(1,2) 3]]]
    by simp
  then show ?thesis by (simp add: read_pixel_def px' rest)
qed

lemma pack_pixels_length:
  "pack_pixels m b pxs bits = Some pxs' \<Longrightarrow> length pxs' = length pxs"
  by (induction m b pxs bits arbitrary: pxs' rule: pack_pixels.induct)
     (auto split: prod.splits)

lemma pack_pixels_prefix:
  "0 < b \<Longrightarrow> b \<le> 8 \<Longrightarrow> pack_pixels m b pxs bits = Some pxs'
   \<Longrightarrow> prefix bits (read_pixels m b pxs')"
proof (induction m b pxs bits arbitrary: pxs' rule: pack_pixels.induct)
  case (1 m b pxs)
  then show ?case by simp
next
  case (2 m b x xs)
  then show ?case by simp
next
  case (3 m b px pxs x xs)
  obtain q rest where q: "pack_pixel m b px (x # xs) = (q, rest)" by force
  with "3.prems" obtain tl' where tl': "pack_pixels m b pxs rest = Some tl'" and pxs': "pxs' = q # tl'"
    by (auto split: prod.splits)
  have c: "carried (x # xs) (read_pixel m b q) rest"
    using "3.prems"(1,2) q by (rule pack_pixel_carried)
  have ih: "prefix rest (read_pixels m b tl')"
    using "3.IH" [OF refl q [symmetric] "3.prems"(1,2) tl'] .
  show ?case
  proof (cases "rest = []")
    case True
    with c have "prefix (x # xs) (read_pixel m b q)" by (simp add: carried_def)
    then have "prefix (x # xs) (read_pixel m b q @ read_pixels m b tl')"
      by (rule prefix_prefix)
    then show ?thesis by (simp add: pxs' read_pixels_def)
  next
    case False
    with c have "read_pixel m b q @ rest = x # xs" by (simp add: carried_def)
    then have "prefix (x # xs) (read_pixel m b q @ read_pixels m b tl')"
      using ih by (metis same_prefix_prefix)
    then show ?thesis by (simp add: pxs' read_pixels_def)
  qed
qed

lemma length_read_pixel: "b \<le> 8 \<Longrightarrow> length (read_pixel m b px) = mask_size m * b"
  by (simp add: read_pixel_def read_channel_def mask_size_def algebra_simps)

lemma length_read_pixels: "b \<le> 8 \<Longrightarrow> length (read_pixels m b pxs) = length pxs * (mask_size m * b)"
  by (induction pxs) (simp_all add: read_pixels_def length_read_pixel)

lemma read_pixels_append: "read_pixels m b (xs @ ys) = read_pixels m b xs @ read_pixels m b ys"
  by (simp add: read_pixels_def)

lemma pack_pixels_fits:
  assumes "0 < b" and "b \<le> 8" and "pack_pixels m b pxs bits = Some pxs'"
  shows "length bits \<le> length pxs * (mask_size m * b)"
proof -
  have "length bits \<le> length (read_pixels m b pxs')"
    using pack_pixels_prefix [OF assms] by (rule prefix_length_le)
  then show ?thesis
    using assms(2) pack_pixels_length [OF assms(3)] by (simp add: length_read_pixels)
qed

lemma pack_channel_length:
  assumes "pack_channel sel b v bits = (v', rest)"
  shows "length rest = length bits - of_bool sel * b"
  using assms by (auto simp: pack_channel_def split: if_splits)

lemma pack_pixel_length:
  assumes "pack_pixel m b px bits = (px', rest)"
  shows "length rest = length bits - mask_size m * b"
proof -
  obtain r bits1 where 1: "pack_channel (use_r m) b (red px) bits = (r, bits1)" by force
  obtain g bits2 where 2: "pack_channel (use_g m) b (green px) bits1 = (g, bits2)" by force
  obtain bl bits3 where 3: "pack_channel (use_b m) b (blue px) bits2 = (bl, bits3)" by force
  from assms have rest: "rest = bits3"
    by (simp add: pack_pixel_def 1 2 3)
  show ?thesis
    using pack_channel_length [OF 1] pack_channel_length [OF 2] pack_channel_length [OF 3]
    by (simp add: rest mask_size_def algebra_simps)
qed

lemma pack_pixels_succeeds:
  "length bits \<le> length pxs * (mask_size m * b) \<Longrightarrow> \<exists>pxs'. pack_pixels m b pxs bits = Some pxs'"
proof (induction m b pxs bits rule: pack_pixels.induct)
  case (1 m b pxs)
  then show ?case by simp
next
  case (2 m b x xs)
  then show ?case by simp
next
  case (3 m b px pxs x xs)
  obtain q rest where q: "pack_pixel m b px (x # xs) = (q, rest)" by force
  have "length rest = length (x # xs) - mask_size m * b"
    using q by (rule pack_pixel_length)
  with "3.prems" have "length rest \<le> length pxs * (mask_size m * b)" by simp
  from "3.IH" [OF refl q [symmetric] this] obtain tl' where "pack_pixels m b pxs rest = Some tl'" ..
  then show ?case by (simp add: q)
qed

subsection \<open>Bytes and the header\<close>

lemma length_bytes_to_bits [simp]: "length (bytes_to_bits t) = 8 * length t"
  by (induction t) (simp_all add: bytes_to_bits_def)

lemma bits_to_bytes_word_bits: "bits_to_bytes (word_bits (w :: byte) @ rest) = w # bits_to_bytes rest"
  by (subst bits_to_bytes.simps) simp

lemma bits_to_bytes_bytes_to_bits [simp]: "bits_to_bytes (bytes_to_bits t) = t"
proof (induction t)
  case Nil
  show ?case by (subst bits_to_bytes.simps) (simp add: bytes_to_bits_def)
next
  case (Cons w t)
  have "bytes_to_bits (w # t) = word_bits w @ bytes_to_bits t"
    by (simp add: bytes_to_bits_def)
  then show ?case
    by (simp add: bits_to_bytes_word_bits Cons.IH)
qed

lemma length_flags_bits [simp]: "length (flags_bits f) = 8"
  by (simp add: flags_bits_def)

lemma length_mask_bits [simp]: "length (mask_bits m) = 8"
  by (simp add: mask_bits_def)

lemma parse_flags_flags_bits [simp]: "parse_flags (flags_bits f) = Some f"
  by (simp add: parse_flags_def flags_bits_def)

lemma parse_mask_mask_bits [simp]: "parse_mask (mask_bits m) = Some m"
  by (simp add: parse_mask_def mask_bits_def)

lemma length_write_header [simp]: "length (write_header C h) = header_bits"
  by (simp add: write_header_def header_bits_def)

lemma unat_byte_of_nat: "n \<le> 8 \<Longrightarrow> unat (of_nat n :: byte) = n"
  by (simp add: unat_of_nat)

lemma unat_word32_of_nat: "int n < 2 ^ 32 \<Longrightarrow> unat (of_nat n :: 32 word) = n"
  by (simp add: unat_of_nat)

lemma parse_write_header:
  assumes "header_ok C h"
  shows "parse_header C (write_header C h) = Inr h"
proof -
  let ?bs = "write_header C h"
  have m: "take 32 ?bs = word_bits (magic C)"
    and v: "take 8 (drop 32 ?bs) = word_bits (hdr_version h)"
    and f: "take 8 (drop 40 ?bs) = flags_bits (hdr_flags h)"
    and d: "take 8 (drop 48 ?bs) = word_bits (of_nat (hdr_bits_per_channel h) :: byte)"
    and c: "take 8 (drop 56 ?bs) = mask_bits (hdr_mask h)"
    and l: "take 32 (drop 64 ?bs) = word_bits (of_nat (payload_length h) :: 32 word)"
    and k: "take 32 (drop 96 ?bs) = word_bits (hdr_checksum h)"
    by (simp_all add: write_header_def)
  have len: "length ?bs = header_bits" by simp
  show ?thesis
    using assms
    unfolding parse_header_def Let_def m v f d c l k len header_ok_def
    by (simp add: unat_byte_of_nat unat_word32_of_nat)
qed

subsection \<open>Encode and decode\<close>

lemma mask_size_rgb [simp]: "mask_size rgb_mask = 3"
  by (simp add: mask_size_def rgb_mask_def)

lemma mask_size_le: "mask_size m \<le> 3"
  by (simp add: mask_size_def)

lemma header_pixels_eq: "header_pixels = 43"
  by (simp add: header_pixels_def header_bits_def)

lemma take_read_pixels_region:
  assumes pre: "prefix bits (read_pixels m b pxs)"
    and b: "b \<le> 8"
    and room: "length bits \<le> n * (mask_size m * b)"
    and n: "n \<le> length pxs"
  shows "take (length bits) (read_pixels m b (take n pxs @ other)) = bits"
proof -
  have len: "length (read_pixels m b (take n pxs)) = n * (mask_size m * b)"
    using b n by (simp add: length_read_pixels)
  have "read_pixels m b pxs = read_pixels m b (take n pxs) @ read_pixels m b (drop n pxs)"
    by (simp add: read_pixels_append [symmetric])
  with pre have "take (length bits) (read_pixels m b (take n pxs) @ read_pixels m b (drop n pxs)) = bits"
    by (metis append_eq_conv_conj prefix_def)
  then have "take (length bits) (read_pixels m b (take n pxs)) = bits"
    using room len by simp
  then show ?thesis
    using room len by (simp add: read_pixels_append)
qed

lemma prefix_take_length: "prefix bits stream \<Longrightarrow> take (length bits) stream = bits"
  by (metis append_eq_conv_conj prefix_def)

text \<open>What a successful run of the encoder has done.\<close>

lemma encode_run_success:
  assumes "encode_run C prm salt nonce payload img = (None, img')"
  defines "t \<equiv> transform_payload C prm salt nonce payload"
  shows "validate prm img \<and> fits C prm img t
    \<and> (\<exists>pxs1 pxs2.
          pack_pixels rgb_mask 1 (pixels img) (write_header C (make_header C prm t)) = Some pxs1
        \<and> pack_pixels (prm_mask prm) (bits_per_channel prm) (drop header_pixels pxs1) (bytes_to_bits t)
            = Some pxs2
        \<and> img' = img\<lparr>pixels := take header_pixels pxs1 @ pxs2\<rparr>)"
  using assms(1) unfolding t_def encode_run_def pack_def Let_def
  by (auto split: if_splits option.splits sum.splits)

lemma encode_Inr_iff:
  "encode C prm salt nonce payload img = Inr img'
   \<longleftrightarrow> encode_run C prm salt nonce payload img = (None, img')"
  by (auto simp: encode_def split: prod.splits option.splits)

lemma encode_Inl_iff:
  "encode C prm salt nonce payload img = Inl e
   \<longleftrightarrow> (\<exists>buf. encode_run C prm salt nonce payload img = (Some e, buf))"
  by (auto simp: encode_def split: prod.splits option.splits)

lemma header_ok_make_header:
  assumes "validate prm img" and "fits C prm img t"
  shows "header_ok C (make_header C prm t)"
  using assms by (simp add: header_ok_def make_header_def validate_def fits_def)

lemma read_header_encode:
  assumes "encode C prm salt nonce payload img = Inr img'"
  shows "unpack img' rgb_mask 1 0 header_bits
           = Some (write_header C (make_header C prm (transform_payload C prm salt nonce payload)))
       \<and> read_header C img'
           = Inr (make_header C prm (transform_payload C prm salt nonce payload))"
proof -
  let ?t = "transform_payload C prm salt nonce payload"
  let ?h = "make_header C prm ?t"
  from assms have run: "encode_run C prm salt nonce payload img = (None, img')"
    by (simp add: encode_Inr_iff)
  from encode_run_success [OF run] obtain pxs1 pxs2
    where v: "validate prm img" and f: "fits C prm img ?t"
      and p1: "pack_pixels rgb_mask 1 (pixels img) (write_header C ?h) = Some pxs1"
      and p2: "pack_pixels (prm_mask prm) (bits_per_channel prm) (drop header_pixels pxs1)
                 (bytes_to_bits ?t) = Some pxs2"
      and img': "img' = img\<lparr>pixels := take header_pixels pxs1 @ pxs2\<rparr>"
    by blast
  have pre: "prefix (write_header C ?h) (read_pixels rgb_mask 1 pxs1)"
    using p1 by (intro pack_pixels_prefix) simp_all
  have "length (write_header C ?h) \<le> length (pixels img) * (mask_size rgb_mask * 1)"
    using p1 by (intro pack_pixels_fits) simp_all
  then have n: "header_pixels \<le> length pxs1"
    using pack_pixels_length [OF p1] by (simp add: header_pixels_eq header_bits_def)
  have tk: "take (length (write_header C ?h))
              (read_pixels rgb_mask 1 (take header_pixels pxs1 @ pxs2)) = write_header C ?h"
    using pre _ _ n by (rule take_read_pixels_region) (simp_all add: header_pixels_eq header_bits_def)
  have "header_bits \<le> length (read_pixels rgb_mask 1 (take header_pixels pxs1 @ pxs2))"
    using n by (simp add: length_read_pixels header_pixels_eq header_bits_def)
  with tk have u: "unpack img' rgb_mask 1 0 header_bits = Some (write_header C ?h)"
    by (simp add: unpack_def img' Let_def)
  moreover have "parse_header C (write_header C ?h) = Inr ?h"
    using header_ok_make_header [OF v f] by (rule parse_write_header)
  ultimately show ?thesis
    by (simp add: read_header_def)
qed

lemma read_payload_encode:
  assumes "encode C prm salt nonce payload img = Inr img'"
  shows "read_payload img' (make_header C prm (transform_payload C prm salt nonce payload))
           = Inr (transform_payload C prm salt nonce payload)"
proof -
  let ?t = "transform_payload C prm salt nonce payload"
  let ?h = "make_header C prm ?t"
  from assms have run: "encode_run C prm salt nonce payload img = (None, img')"
    by (simp add: encode_Inr_iff)
  from encode_run_success [OF run] obtain pxs1 pxs2
    where v: "validate prm img"
      and p1: "pack_pixels rgb_mask 1 (pixels img) (write_header C ?h) = Some pxs1"
      and p2: "pack_pixels (prm_mask prm) (bits_per_channel prm) (drop header_pixels pxs1)
                 (bytes_to_bits ?t) = Some pxs2"
      and img': "img' = img\<lparr>pixels := take header_pixels pxs1 @ pxs2\<rparr>"
    by blast
  from v have b: "0 < bits_per_channel prm" "bits_per_channel prm \<le> 8"
    by (simp_all add: validate_def)
  have "length (write_header C ?h) \<le> length (pixels img) * (mask_size rgb_mask * 1)"
    using p1 by (intro pack_pixels_fits) simp_all
  then have n: "header_pixels \<le> length pxs1"
    using pack_pixels_length [OF p1] by (simp add: header_pixels_eq header_bits_def)
  then have dr: "drop header_pixels (pixels img') = pxs2"
    by (simp add: img')
  have pre: "prefix (bytes_to_bits ?t) (read_pixels (prm_mask prm) (bits_per_channel prm) pxs2)"
    using b p2 by (rule pack_pixels_prefix)
  have "take (8 * length ?t) (read_pixels (prm_mask prm) (bits_per_channel prm) pxs2) = bytes_to_bits ?t"
    using prefix_take_length [OF pre] by simp
  moreover have "8 * length ?t \<le> length (read_pixels (prm_mask prm) (bits_per_channel prm) pxs2)"
    using prefix_length_le [OF pre] by simp
  ultimately show ?thesis
    by (simp add: read_payload_def unpack_def dr make_header_def Let_def)
qed

lemma decode_encode:
  assumes "encode C prm salt nonce payload img = Inr img'"
  shows "decode C pw img'
           = invert_payload C (flags_of prm) pw (transform_payload C prm salt nonce payload)"
  using read_header_encode [OF assms] read_payload_encode [OF assms]
  by (simp add: decode_def and_then_def verify_checksum_def make_header_def)


lemma le_div8D: "(x::int) \<le> a div 8 - s \<Longrightarrow> 8 * (x + s) \<le> a"
  by presburger


lemma encode_run_succeeds:
  assumes cover: "header_pixels * (mask_size (prm_mask prm) * bits_per_channel prm)
                    \<le> header_bits + 8 * safety_margin C"
    and v: "validate prm img"
    and f: "fits C prm img (transform_payload C prm salt nonce payload)"
  shows "\<exists>img'. encode_run C prm salt nonce payload img = (None, img')"
proof -
  let ?t = "transform_payload C prm salt nonce payload"
  let ?h = "make_header C prm ?t"
  let ?k = "mask_size (prm_mask prm) * bits_per_channel prm"
  let ?n = "length (pixels img)"
  from v have b: "0 < bits_per_channel prm" "bits_per_channel prm \<le> 8"
    and n: "?n = image_width img * image_height img"
    by (simp_all add: validate_def image_ok_def)
  from f have "int (length ?t) \<le> (int ?n * int ?k - int header_bits) div 8 - int (safety_margin C)"
    by (simp add: fits_def capacity_def raw_bits_def n mult.assoc)
  then have "8 * (int (length ?t) + int (safety_margin C)) \<le> int ?n * int ?k - int header_bits"
    by (rule le_div8D)
  then have room: "8 * length ?t + 8 * safety_margin C + header_bits \<le> ?n * ?k"
    by (simp add: of_nat_mult [symmetric] del: of_nat_mult)
  have kpos: "0 < ?k"
    using v b by (simp add: validate_def)
  have "header_pixels * ?k \<le> ?n * ?k"
    using room cover by linarith
  then have hp: "header_pixels \<le> ?n"
    using kpos by simp
  have "length (write_header C ?h) \<le> ?n * (mask_size rgb_mask * 1)"
    using hp by (simp add: header_pixels_eq header_bits_def)
  then obtain pxs1 where p1: "pack_pixels rgb_mask 1 (pixels img) (write_header C ?h) = Some pxs1"
    using pack_pixels_succeeds by blast
  have len1: "length pxs1 = ?n"
    using p1 by (rule pack_pixels_length)
  have "(?n - header_pixels) * ?k = ?n * ?k - header_pixels * ?k"
    by (rule diff_mult_distrib)
  with room cover have "8 * length ?t \<le> (?n - header_pixels) * ?k"
    by linarith
  then have "length (bytes_to_bits ?t) \<le> length (drop header_pixels pxs1) * ?k"
    by (simp add: len1)
  then obtain pxs2
    where p2: "pack_pixels (prm_mask prm) (bits_per_channel prm) (drop header_pixels pxs1)
                 (bytes_to_bits ?t) = Some pxs2"
    using pack_pixels_succeeds by blast
  show ?thesis
    using v f p1 p2 by (simp add: encode_run_def pack_def Let_def)
qed


lemma pack_channel_high:
  assumes "pack_channel sel b v bits = (v', rest)" and "b \<le> 8"
  shows "take (8 - b) (word_bits v') = take (8 - b) (word_bits v)"
  using assms by (auto simp: pack_channel_def high_bits_write_low split: if_splits)

lemma pack_pixel_high:
  assumes "pack_pixel m b px bits = (px', rest)" and "b \<le> 8"
  shows "high_bits b px' = high_bits b px"
proof -
  obtain r bits1 where 1: "pack_channel (use_r m) b (red px) bits = (r, bits1)" by force
  obtain g bits2 where 2: "pack_channel (use_g m) b (green px) bits1 = (g, bits2)" by force
  obtain bl bits3 where 3: "pack_channel (use_b m) b (blue px) bits2 = (bl, bits3)" by force
  from assms(1) have px': "px' = \<lparr>red = r, green = g, blue = bl\<rparr>"
    by (simp add: pack_pixel_def 1 2 3)
  show ?thesis
    using pack_channel_high [OF 1 assms(2)] pack_channel_high [OF 2 assms(2)]
          pack_channel_high [OF 3 assms(2)]
    by (simp add: high_bits_def px')
qed

lemma pack_pixels_high:
  "pack_pixels m b pxs bits = Some pxs' \<Longrightarrow> b \<le> 8
   \<Longrightarrow> map (high_bits b) pxs' = map (high_bits b) pxs"
proof (induction m b pxs bits arbitrary: pxs' rule: pack_pixels.induct)
  case (1 m b pxs)
  then show ?case by simp
next
  case (2 m b x xs)
  then show ?case by simp
next
  case (3 m b px pxs x xs)
  obtain q rest where q: "pack_pixel m b px (x # xs) = (q, rest)" by force
  with "3.prems" obtain tl' where tl': "pack_pixels m b pxs rest = Some tl'" and pxs': "pxs' = q # tl'"
    by (auto split: prod.splits)
  show ?case
    using pack_pixel_high [OF q "3.prems"(2)] "3.IH" [OF refl q [symmetric] tl' "3.prems"(2)]
    by (simp add: pxs')
qed

lemma header_region_high_bits:
  assumes "encode C prm salt nonce payload img = Inr img'"
  shows "map (high_bits 1) (take header_pixels (pixels img'))
           = map (high_bits 1) (take header_pixels (pixels img))
       \<and> image_width img' = image_width img \<and> image_height img' = image_height img
       \<and> length (pixels img') = length (pixels img)"
proof -
  let ?t = "transform_payload C prm salt nonce payload"
  let ?h = "make_header C prm ?t"
  from assms have run: "encode_run C prm salt nonce payload img = (None, img')"
    by (simp add: encode_Inr_iff)
  from encode_run_success [OF run] obtain pxs1 pxs2
    where p1: "pack_pixels rgb_mask 1 (pixels img) (write_header C ?h) = Some pxs1"
      and p2: "pack_pixels (prm_mask prm) (bits_per_channel prm) (drop header_pixels pxs1)
                 (bytes_to_bits ?t) = Some pxs2"
      and img': "img' = img\<lparr>pixels := take header_pixels pxs1 @ pxs2\<rparr>"
    by blast
  have "length (write_header C ?h) \<le> length (pixels img) * (mask_size rgb_mask * 1)"
    using p1 by (intro pack_pixels_fits) simp_all
  then have n: "header_pixels \<le> length pxs1"
    using pack_pixels_length [OF p1] by (simp add: header_pixels_eq header_bits_def)
  have "take header_pixels (pixels img') = take header_pixels pxs1"
    using n by (simp add: img')
  moreover have "map (high_bits 1) pxs1 = map (high_bits 1) (pixels img)"
    using p1 by (rule pack_pixels_high) simp
  moreover have "length (pixels img') = length (pixels img)"
    using n pack_pixels_length [OF p1] pack_pixels_length [OF p2] by (simp add: img')
  ultimately show ?thesis
    by (simp add: take_map [symmetric] img')
qed






subsection \<open>The example codec\<close>

lemma key_block_Nil: "key_block [] = [0]"
  by (simp add: key_block_def)

lemma key_block_Cons: "key_block (b # p) = 1 # b # key_block p"
  by (simp add: key_block_def)

lemma key_block_prefix_free:
  "prefix (key_block p') (key_block p @ rest) \<Longrightarrow> p' = p"
proof (induction p' arbitrary: p)
  case Nil
  then show ?case by (cases p) (simp_all add: key_block_Nil key_block_Cons)
next
  case (Cons b q)
  then show ?case by (cases p) (auto simp: key_block_Nil key_block_Cons)
qed


lemma validate_flat_image:
  "validate prm (flat_image w h)
   \<longleftrightarrow> 1 \<le> bits_per_channel prm \<and> bits_per_channel prm \<le> 8 \<and> 0 < mask_size (prm_mask prm)"
  by (simp add: validate_def image_ok_def flat_image_def)

subsection \<open>Facts about the examples\<close>


lemma fits_hello_full:
  "fits toy_codec full_params (flat_image 20 20)
     (transform_payload toy_codec full_params [1, 2, 3] [4, 5, 6] hello)"
  by (simp add: fits_def capacity_def raw_bits_def header_bits_def toy_codec_def full_params_def
        flat_image_def transform_payload_def hello_def mask_size_def
        toy_compress_def toy_encrypt_def toy_ec_encode_def key_block_def)


lemma validate_full: "validate full_params (flat_image 20 20)"
  by (simp add: validate_flat_image full_params_def mask_size_def)

lemma and_then_Inr: "and_then r Inr = r"
  by (cases r) (simp_all add: and_then_def)

lemma and_then_Inr_left: "and_then (Inr x) f = f x"
  by (simp add: and_then_def)



lemma toy_covers_full:
  "header_pixels * (mask_size (prm_mask full_params) * bits_per_channel full_params)
     \<le> header_bits + 8 * safety_margin toy_codec"
  by (simp add: header_pixels_eq header_bits_def toy_codec_def full_params_def mask_size_def)






lemma damaged_facts:
  "read_header toy_codec damaged
     = Inr \<lparr>hdr_version = 1,
            hdr_flags = \<lparr>compressed = True, encrypted = True, error_corrected = False\<rparr>,
            hdr_bits_per_channel = 8, hdr_mask = rgb_mask, payload_length = 11,
            hdr_checksum = 1212\<rparr>
   \<and> read_payload damaged
        \<lparr>hdr_version = 1,
         hdr_flags = \<lparr>compressed = True, encrypted = True, error_corrected = False\<rparr>,
         hdr_bits_per_channel = 8, hdr_mask = rgb_mask, payload_length = 11,
         hdr_checksum = 1212\<rparr>
     = Inr [1, 112, 1, 119, 0, 157, 163, 159, 166, 166, 169]
   \<and> checksum_fn toy_codec [1, 112, 1, 119, 0, 157, 163, 159, 166, 166, 169] = 1213
   \<and> invert_payload toy_codec
        \<lparr>compressed = True, encrypted = True, error_corrected = False\<rparr> (Some [112, 120])
        [1, 112, 1, 119, 0, 157, 163, 159, 166, 166, 169] = Inl DecryptionError
   \<and> invert_payload toy_codec
        \<lparr>compressed = True, encrypted = True, error_corrected = False\<rparr> (Some [112, 119])
        [1, 112, 1, 119, 0, 157, 163, 159, 166, 166, 169] = Inr [73, 69, 76, 76, 79]"
  by code_simp

section \<open>The claims about the codec\<close>




text \<open>
  C3. Whatever depth and channel mask the user chose for the payload, an image produced
  by encode carries the header at one bit per channel over R, G and B from the first
  pixel on: reading that depth and mask at offset 0, with no other parameter, gives
  back the bits of the header, which parse to the header of this encode; and in the
  pixels of the header nothing above the lowest bit of a channel differs from the
  source image.
\<close>

theorem header_fixed_depth:
  assumes "encode C prm salt nonce payload img = Inr img'"
  shows "unpack img' rgb_mask 1 0 header_bits
           = Some (write_header C (make_header C prm (transform_payload C prm salt nonce payload)))
     \<and> read_header C img' = Inr (make_header C prm (transform_payload C prm salt nonce payload))
     \<and> map (high_bits 1) (take header_pixels (pixels img'))
         = map (high_bits 1) (take header_pixels (pixels img))"
  using read_header_encode [OF assms] header_region_high_bits [OF assms] by simp

theorem header_fixed_depth_witness:
  "\<exists>img'. encode toy_codec full_params [1, 2, 3] [4, 5, 6] hello (flat_image 20 20) = Inr img'
      \<and> read_header toy_codec img'
          = Inr \<lparr>hdr_version = 1,
                 hdr_flags = \<lparr>compressed = True, encrypted = True, error_corrected = True\<rparr>,
                 hdr_bits_per_channel = 3,
                 hdr_mask = \<lparr>use_r = True, use_g = False, use_b = True\<rparr>,
                 payload_length = 23, hdr_checksum = 2426\<rparr>"
proof -
  obtain img' where e: "encode toy_codec full_params [1, 2, 3] [4, 5, 6] hello (flat_image 20 20) = Inr img'"
    using encode_run_succeeds [OF toy_covers_full validate_full fits_hello_full]
    by (auto simp: encode_Inr_iff)
  have "make_header toy_codec full_params
          (transform_payload toy_codec full_params [1, 2, 3] [4, 5, 6] hello)
        = \<lparr>hdr_version = 1,
           hdr_flags = \<lparr>compressed = True, encrypted = True, error_corrected = True\<rparr>,
           hdr_bits_per_channel = 3,
           hdr_mask = \<lparr>use_r = True, use_g = False, use_b = True\<rparr>,
           payload_length = 23, hdr_checksum = 2426\<rparr>"
    by code_simp
  with header_fixed_depth [OF e] e show ?thesis by auto
qed

text \<open>
  C4. For each of the eight combinations of the three stages, encode applies the
  enabled stages in the order compress, encrypt, error-correct, each on the output of
  the one before; the inverse applies the inverses of the enabled stages in the order
  error-correction decode, decrypt, decompress; and decode runs the inverses that the
  flags of the header select, which are the flags of the encode.
\<close>

theorem pipeline_order:
  "transform_payload C
      \<lparr>bits_per_channel = b, prm_mask = m, do_compress = False, passphrase = None,
       error_correction = None\<rparr> salt nonce x = x
   \<and> transform_payload C
      \<lparr>bits_per_channel = b, prm_mask = m, do_compress = True, passphrase = None,
       error_correction = None\<rparr> salt nonce x = compress_fn C x
   \<and> transform_payload C
      \<lparr>bits_per_channel = b, prm_mask = m, do_compress = False, passphrase = Some p,
       error_correction = None\<rparr> salt nonce x = encrypt_fn C p salt nonce x
   \<and> transform_payload C
      \<lparr>bits_per_channel = b, prm_mask = m, do_compress = False, passphrase = None,
       error_correction = Some lv\<rparr> salt nonce x = ec_encode_fn C lv x
   \<and> transform_payload C
      \<lparr>bits_per_channel = b, prm_mask = m, do_compress = True, passphrase = Some p,
       error_correction = None\<rparr> salt nonce x = encrypt_fn C p salt nonce (compress_fn C x)
   \<and> transform_payload C
      \<lparr>bits_per_channel = b, prm_mask = m, do_compress = True, passphrase = None,
       error_correction = Some lv\<rparr> salt nonce x = ec_encode_fn C lv (compress_fn C x)
   \<and> transform_payload C
      \<lparr>bits_per_channel = b, prm_mask = m, do_compress = False, passphrase = Some p,
       error_correction = Some lv\<rparr> salt nonce x = ec_encode_fn C lv (encrypt_fn C p salt nonce x)
   \<and> transform_payload C
      \<lparr>bits_per_channel = b, prm_mask = m, do_compress = True, passphrase = Some p,
       error_correction = Some lv\<rparr> salt nonce x
       = ec_encode_fn C lv (encrypt_fn C p salt nonce (compress_fn C x))
   \<and> invert_payload C \<lparr>compressed = False, encrypted = False, error_corrected = False\<rparr> pw d
       = Inr d
   \<and> invert_payload C \<lparr>compressed = True, encrypted = False, error_corrected = False\<rparr> pw d
       = or_error CorruptPayloadError (decompress_fn C d)
   \<and> invert_payload C \<lparr>compressed = False, encrypted = True, error_corrected = False\<rparr> (Some p) d
       = or_error DecryptionError (decrypt_fn C p d)
   \<and> invert_payload C \<lparr>compressed = False, encrypted = False, error_corrected = True\<rparr> pw d
       = or_error CorruptPayloadError (ec_decode_fn C d)
   \<and> invert_payload C \<lparr>compressed = True, encrypted = True, error_corrected = False\<rparr> (Some p) d
       = and_then (or_error DecryptionError (decrypt_fn C p d))
           (\<lambda>d2. or_error CorruptPayloadError (decompress_fn C d2))
   \<and> invert_payload C \<lparr>compressed = True, encrypted = False, error_corrected = True\<rparr> pw d
       = and_then (or_error CorruptPayloadError (ec_decode_fn C d))
           (\<lambda>d1. or_error CorruptPayloadError (decompress_fn C d1))
   \<and> invert_payload C \<lparr>compressed = False, encrypted = True, error_corrected = True\<rparr> (Some p) d
       = and_then (or_error CorruptPayloadError (ec_decode_fn C d))
           (\<lambda>d1. or_error DecryptionError (decrypt_fn C p d1))
   \<and> invert_payload C \<lparr>compressed = True, encrypted = True, error_corrected = True\<rparr> (Some p) d
       = and_then (and_then (or_error CorruptPayloadError (ec_decode_fn C d))
                     (\<lambda>d1. or_error DecryptionError (decrypt_fn C p d1)))
           (\<lambda>d2. or_error CorruptPayloadError (decompress_fn C d2))
   \<and> (encode C prm salt nonce x img = Inr img'
        \<longrightarrow> (\<exists>h. read_header C img' = Inr h \<and> hdr_flags h = flags_of prm)
          \<and> decode C pw img'
              = invert_payload C (flags_of prm) pw (transform_payload C prm salt nonce x))"
proof -
  have fwd: "transform_payload C
      \<lparr>bits_per_channel = b, prm_mask = m, do_compress = c, passphrase = q,
       error_correction = ec\<rparr> salt nonce x
      = (case ec of
           None \<Rightarrow> (\<lambda>y. y)
         | Some lv \<Rightarrow> ec_encode_fn C lv)
          ((case q of None \<Rightarrow> (\<lambda>y. y) | Some p \<Rightarrow> encrypt_fn C p salt nonce)
             (if c then compress_fn C x else x))" for c q ec
    by (simp add: transform_payload_def split: option.splits)
  have bwd: "invert_payload C \<lparr>compressed = c, encrypted = e, error_corrected = r\<rparr> pw d
      = and_then
          (and_then (if r then or_error CorruptPayloadError (ec_decode_fn C d) else Inr d)
             (\<lambda>d1. if e then (case pw of None \<Rightarrow> Inl DecryptionError
                                | Some p \<Rightarrow> or_error DecryptionError (decrypt_fn C p d1))
                    else Inr d1))
          (\<lambda>d2. if c then or_error CorruptPayloadError (decompress_fn C d2) else Inr d2)"
    for c e r pw
    by (simp add: invert_payload_def invert_error_correction_def invert_encryption_def
          invert_compression_def and_then_def split: sum.splits)
  have dec: "(\<exists>h. read_header C img' = Inr h \<and> hdr_flags h = flags_of prm)
      \<and> decode C pw img' = invert_payload C (flags_of prm) pw (transform_payload C prm salt nonce x)"
    if "encode C prm salt nonce x img = Inr img'"
    using read_header_encode [OF that] decode_encode [OF that] by (simp add: make_header_def)
  show ?thesis
    unfolding fwd bwd using dec by (simp add: and_then_Inr and_then_Inr_left)
qed

theorem pipeline_order_witness:
  "\<exists>img'. encode toy_codec full_params [1, 2, 3] [4, 5, 6] hello (flat_image 20 20) = Inr img'
      \<and> decode toy_codec (Some [112, 119]) img'
          = invert_payload toy_codec
              \<lparr>compressed = True, encrypted = True, error_corrected = True\<rparr> (Some [112, 119])
              (toy_ec_encode Medium (toy_encrypt [112, 119] [1, 2, 3] [4, 5, 6] (toy_compress hello)))"
proof -
  obtain img' where e: "encode toy_codec full_params [1, 2, 3] [4, 5, 6] hello (flat_image 20 20) = Inr img'"
    using encode_run_succeeds [OF toy_covers_full validate_full fits_hello_full]
    by (auto simp: encode_Inr_iff)
  have t: "transform_payload toy_codec full_params [1, 2, 3] [4, 5, 6] hello
             = toy_ec_encode Medium (toy_encrypt [112, 119] [1, 2, 3] [4, 5, 6] (toy_compress hello))"
    by (simp add: transform_payload_def full_params_def toy_codec_def)
  have f: "flags_of full_params = \<lparr>compressed = True, encrypted = True, error_corrected = True\<rparr>"
    by (simp add: flags_of_def full_params_def)
  show ?thesis
    using pipeline_order [where C = toy_codec and prm = full_params and salt = "[1, 2, 3]"
            and nonce = "[4, 5, 6]" and x = hello and img = "flat_image 20 20" and img' = img'
            and pw = "Some [112, 119]"] e
    by (auto simp: t f)
qed







text \<open>
  C7. When a valid header is found and the payload is extracted, the checksum is
  verified before any inverse stage: on a mismatch decode gives \<open>CorruptPayloadError\<close>
  whatever the inverse stages are (none of them is consulted), and on a match decode is
  the inverse pipeline on the extracted payload.
\<close>

theorem checksum_before_inverse:
  assumes "read_header C img = Inr h" and "read_payload img h = Inr d"
  shows "(checksum_fn C d \<noteq> hdr_checksum h
          \<longrightarrow> decode C pw img = Inl CorruptPayloadError
            \<and> (\<forall>dc de dr. decode (C\<lparr>decompress_fn := dc, decrypt_fn := de, ec_decode_fn := dr\<rparr>)
                              pw img = Inl CorruptPayloadError))
     \<and> (checksum_fn C d = hdr_checksum h
          \<longrightarrow> decode C pw img = invert_payload C (hdr_flags h) pw d)"
proof -
  have "parse_header (C\<lparr>decompress_fn := dc, decrypt_fn := de, ec_decode_fn := dr\<rparr>) bs
          = parse_header C bs" for dc de dr bs
    by (simp add: parse_header_def Let_def)
  then have "read_header (C\<lparr>decompress_fn := dc, decrypt_fn := de, ec_decode_fn := dr\<rparr>) img
          = read_header C img" for dc de dr
    by (simp add: read_header_def split: option.splits)
  then show ?thesis
    using assms by (simp add: decode_def and_then_def verify_checksum_def)
qed

theorem checksum_before_inverse_witness:
  "decode toy_codec (Some [112, 120]) damaged = Inl CorruptPayloadError
   \<and> decode toy_codec (Some [112, 119]) damaged = Inl CorruptPayloadError
   \<and> invert_payload toy_codec
        \<lparr>compressed = True, encrypted = True, error_corrected = False\<rparr> (Some [112, 120])
        [1, 112, 1, 119, 0, 157, 163, 159, 166, 166, 169] = Inl DecryptionError
   \<and> invert_payload toy_codec
        \<lparr>compressed = True, encrypted = True, error_corrected = False\<rparr> (Some [112, 119])
        [1, 112, 1, 119, 0, 157, 163, 159, 166, 166, 169] = Inr [73, 69, 76, 76, 79]"
  using checksum_before_inverse [of toy_codec damaged
          "\<lparr>hdr_version = 1,
            hdr_flags = \<lparr>compressed = True, encrypted = True, error_corrected = False\<rparr>,
            hdr_bits_per_channel = 8, hdr_mask = rgb_mask, payload_length = 11,
            hdr_checksum = 1212\<rparr>"
          "[1, 112, 1, 119, 0, 157, 163, 159, 166, 166, 169]" "Some [112, 120]"]
        checksum_before_inverse [of toy_codec damaged
          "\<lparr>hdr_version = 1,
            hdr_flags = \<lparr>compressed = True, encrypted = True, error_corrected = False\<rparr>,
            hdr_bits_per_channel = 8, hdr_mask = rgb_mask, payload_length = 11,
            hdr_checksum = 1212\<rparr>"
          "[1, 112, 1, 119, 0, 157, 163, 159, 166, 166, 169]" "Some [112, 119]"]
        damaged_facts
  by simp

end
